theory Spec2Isabelle
  imports Complex_Main
begin

section \<open>JavaScript numbers, idealised\<close>

text \<open>
  The functions of the importance transform compute on JavaScript numbers, which are
  IEEE 754 doubles. Two arithmetics are used below. In this section a number is a real,
  one of the two infinities, or NaN, and the operators are exact: no rounding, no
  overflow of a finite result, no underflow. The lengths of the vectors, the trailing
  slot and the decoder are stated on this arithmetic. What the normalizer returns depends
  on rounding and on the range of doubles; it is stated on the rounded operators of the
  section on double precision, which are the exact operators followed by rounding to the
  nearest double. The sign of zero is modelled in neither.
\<close>

datatype number = Num real | PInf | NInf | NaN

definition is_neg :: "number \<Rightarrow> bool" where
  "is_neg a = (case a of Num x \<Rightarrow> x < 0 | NInf \<Rightarrow> True | _ \<Rightarrow> False)"

text \<open>The operator \<^verbatim>\<open>===\<close> on two numbers: NaN is equal to nothing, itself included.\<close>

definition strict_eq :: "number \<Rightarrow> number \<Rightarrow> bool" where
  "strict_eq a b = (a \<noteq> NaN \<and> b \<noteq> NaN \<and> a = b)"

text \<open>The operator \<^verbatim>\<open>+\<close>: opposite infinities cancel to NaN.\<close>

definition nadd :: "number \<Rightarrow> number \<Rightarrow> number" where
  "nadd a b =
     (case (a, b) of
        (Num x, Num y) \<Rightarrow> Num (x + y)
      | (Num x, _) \<Rightarrow> b
      | (_, Num y) \<Rightarrow> a
      | _ \<Rightarrow> if a = b then a else NaN)"

text \<open>The operator \<^verbatim>\<open>*\<close>: an infinity times zero is NaN.\<close>

definition nmul :: "number \<Rightarrow> number \<Rightarrow> number" where
  "nmul a b =
     (case (a, b) of
        (Num x, Num y) \<Rightarrow> Num (x * y)
      | _ \<Rightarrow> if a = NaN \<or> b = NaN \<or> a = Num 0 \<or> b = Num 0 then NaN
             else if is_neg a = is_neg b then PInf else NInf)"

text \<open>
  The operator \<^verbatim>\<open>/\<close>. A zero divisor is read as positive zero: zero by zero is NaN,
  anything else by zero is the infinity of the dividend's sign.
\<close>

definition ndiv :: "number \<Rightarrow> number \<Rightarrow> number" where
  "ndiv a b =
     (case (a, b) of
        (Num x, Num y) \<Rightarrow>
          if y \<noteq> 0 then Num (x / y)
          else if x = 0 then NaN else if 0 < x then PInf else NInf
      | (Num x, _) \<Rightarrow> if b = NaN then NaN else Num 0
      | (_, Num y) \<Rightarrow> if a = NaN then NaN else if is_neg a = (y < 0) then PInf else NInf
      | _ \<Rightarrow> NaN)"

text \<open>\<^verbatim>\<open>Math.sqrt\<close>: NaN below zero.\<close>

definition nsqrt :: "number \<Rightarrow> number" where
  "nsqrt a =
     (case a of
        Num x \<Rightarrow> if x < 0 then NaN else Num (sqrt x)
      | PInf \<Rightarrow> PInf
      | _ \<Rightarrow> NaN)"

text \<open>The operator \<^verbatim>\<open>**\<close> with a natural exponent; anything to the power 0 is 1.\<close>

definition npow :: "number \<Rightarrow> nat \<Rightarrow> number" where
  "npow a n =
     (if n = 0 then Num 1
      else case a of
        Num x \<Rightarrow> Num (x ^ n)
      | PInf \<Rightarrow> PInf
      | NInf \<Rightarrow> if even n then PInf else NInf
      | NaN \<Rightarrow> NaN)"

section \<open>Arrays\<close>

text \<open>
  \<^verbatim>\<open>xs.slice(start, end)\<close> with integer arguments: a negative argument counts from the
  end, both are clamped to the array, and an empty range gives the empty array.
\<close>

definition slice :: "'a list \<Rightarrow> int \<Rightarrow> int \<Rightarrow> 'a list" where
  "slice xs start end' =
     (let n = int (length xs);
          k = (if start < 0 then max (n + start) 0 else min start n);
          f = (if end' < 0 then max (n + end') 0 else min end' n)
      in take (nat (f - k)) (drop (nat k) xs))"

text \<open>
  \<^verbatim>\<open>xs[i]\<close> read as a number: outside the array the read gives \<^verbatim>\<open>undefined\<close>, which
  arithmetic converts to NaN.
\<close>

definition index_number :: "number list \<Rightarrow> int \<Rightarrow> number" where
  "index_number xs i = (if 0 \<le> i \<and> i < int (length xs) then xs ! nat i else NaN)"

section \<open>The importance transform\<close>

definition searchVector :: "number list \<Rightarrow> number list" where
  "searchVector embedding =
     (if length embedding = 4096 then slice embedding 0 4095 @ [Num 0]
      else embedding @ [Num 0])"

definition normalizeVector :: "number list \<Rightarrow> number list" where
  "normalizeVector vector =
     (let sumOfSquares = foldl (\<lambda>acc v. nadd acc (nmul v v)) (Num 0) vector;
          magnitude = nsqrt sumOfSquares
      in if strict_eq magnitude (Num 0) then map (\<lambda>_. Num 0) vector
         else map (\<lambda>v. ndiv v magnitude) vector)"

definition vectorWithImportance :: "number list \<Rightarrow> number \<Rightarrow> number list" where
  "vectorWithImportance embedding importance =
     (let vectorToModify =
            (if length embedding = 4096 then slice embedding 0 4095 else embedding);
          normalized = normalizeVector vectorToModify;
          sqrtImportance = nsqrt importance
      in normalized @ [sqrtImportance])"

definition modifyImportance :: "number list \<Rightarrow> number \<Rightarrow> number list" where
  "modifyImportance vector importance =
     (let vectorToModify = slice vector 0 (int (length vector) - 1)
      in vectorWithImportance vectorToModify importance)"

definition getImportance :: "number list \<Rightarrow> number" where
  "getImportance vector = npow (index_number vector (int (length vector) - 1)) 2"

definition vectorWithImportanceDimension :: "number \<Rightarrow> number" where
  "vectorWithImportanceDimension dimensions =
     (if strict_eq dimensions (Num 4096) then Num 4096 else nadd dimensions (Num 1))"

section \<open>Double precision\<close>

text \<open>
  A finite double is an integer multiple of a power of two: below \<open>2^-1022\<close> a
  multiple of \<open>2^-1074\<close>, and from \<open>2^e\<close> up to \<open>2^(e+1)\<close> a multiple of
  \<open>2^(e-52)\<close>. Rounding takes a real to the nearest such multiple, to the one with the
  even multiplier when two are equally near, and to an infinity when the result reaches
  \<open>2^1024\<close>.
\<close>

definition rne :: "real \<Rightarrow> int" where
  "rne t =
     (let f = \<lfloor>t\<rfloor>; d = t - of_int f
      in if d < 1 / 2 then f else if 1 / 2 < d then f + 1 else if even f then f else f + 1)"

definition dbl_round :: "real \<Rightarrow> number" where
  "dbl_round x =
     (if x = 0 then Num 0
      else let e = max \<lfloor>log 2 \<bar>x\<bar>\<rfloor> (- 1022);
               q = 2 powi (e - 52);
               y = of_int (rne (x / q)) * q
           in if 2 ^ 1024 \<le> \<bar>y\<bar> then (if 0 < x then PInf else NInf) else Num y)"

definition round_num :: "number \<Rightarrow> number" where
  "round_num a = (case a of Num x \<Rightarrow> dbl_round x | _ \<Rightarrow> a)"

text \<open>
  The operators on doubles return the exact result, rounded; the infinities and NaN are
  kept. \<^verbatim>\<open>Math.sqrt\<close> is taken to be correctly rounded as well, as the engines
  compute it.
\<close>

definition add64 :: "number \<Rightarrow> number \<Rightarrow> number" where
  "add64 a b = round_num (nadd a b)"

definition mul64 :: "number \<Rightarrow> number \<Rightarrow> number" where
  "mul64 a b = round_num (nmul a b)"

definition div64 :: "number \<Rightarrow> number \<Rightarrow> number" where
  "div64 a b = round_num (ndiv a b)"

definition sqrt64 :: "number \<Rightarrow> number" where
  "sqrt64 a = round_num (nsqrt a)"

text \<open>
  The normalizer, the encoder and the re-weighting as they run on doubles: the
  definitions of the previous section with every operator rounded.
\<close>

definition normalizeVector64 :: "number list \<Rightarrow> number list" where
  "normalizeVector64 vector =
     (let sumOfSquares = foldl (\<lambda>acc v. add64 acc (mul64 v v)) (Num 0) vector;
          magnitude = sqrt64 sumOfSquares
      in if strict_eq magnitude (Num 0) then map (\<lambda>_. Num 0) vector
         else map (\<lambda>v. div64 v magnitude) vector)"

definition vectorWithImportance64 :: "number list \<Rightarrow> number \<Rightarrow> number list" where
  "vectorWithImportance64 embedding importance =
     (let vectorToModify =
            (if length embedding = 4096 then slice embedding 0 4095 else embedding);
          normalized = normalizeVector64 vectorToModify;
          sqrtImportance = sqrt64 importance
      in normalized @ [sqrtImportance])"

definition modifyImportance64 :: "number list \<Rightarrow> number \<Rightarrow> number list" where
  "modifyImportance64 vector importance =
     (let vectorToModify = slice vector 0 (int (length vector) - 1)
      in vectorWithImportance64 vectorToModify importance)"

text \<open>The magnitude that the normalizer computes, its second local constant.\<close>

definition magnitude64 :: "number list \<Rightarrow> number" where
  "magnitude64 vector = sqrt64 (foldl (\<lambda>acc v. add64 acc (mul64 v v)) (Num 0) vector)"

section \<open>Notions of the specification\<close>

text \<open>
  The dimension-cap policy as the specification words it: an embedding of exactly 4096
  entries loses its last entry, any other embedding is passed through.
\<close>

definition truncateForEncoding :: "'a list \<Rightarrow> 'a list" where
  "truncateForEncoding embedding =
     (if length embedding = 4096 then butlast embedding else embedding)"

text \<open>
  The entries for which no square, sum or quotient of the normalizer leaves the range of
  the normal doubles, for vectors of up to 4096 entries: zero, or of a magnitude between
  \<open>2^-200\<close> and \<open>2^200\<close>.
\<close>

definition safe_entry :: "real \<Rightarrow> bool" where
  "safe_entry r \<longleftrightarrow> r = 0 \<or> (1 / 2 ^ 200 \<le> \<bar>r\<bar> \<and> \<bar>r\<bar> \<le> 2 ^ 200)"

text \<open>
  The unit roundoff, the least normal double and a bound on the finite doubles; and
  closeness of two reals up to \<open>j\<close> roundings, each a factor between \<open>1 - u64\<close> and
  its inverse.
\<close>

definition u64 :: real where
  "u64 = 1 / 2 ^ 53"

definition lo64 :: real where
  "lo64 = 1 / 2 ^ 1022"

definition hi64 :: real where
  "hi64 = 2 ^ 1023"

definition close :: "nat \<Rightarrow> real \<Rightarrow> real \<Rightarrow> bool" where
  "close j x y \<longleftrightarrow> (1 - u64) ^ j * y \<le> x \<and> (1 - u64) ^ j * x \<le> y"

section \<open>Slices\<close>

lemma slice_0: "0 \<le> k \<Longrightarrow> slice xs 0 k = take (nat k) xs"
  by (simp add: slice_def Let_def min_def)

lemma slice_0_4095: "slice xs 0 4095 = take 4095 xs"
  using slice_0 [of 4095 xs] by simp

lemma slice_drop_last: "slice xs 0 (int (length xs) - 1) = butlast xs"
proof -
  have "nat (int (length xs) - 1) = length xs - 1" by linarith
  then show ?thesis by (simp add: slice_def Let_def butlast_conv_take)
qed

lemma take_4095_butlast: "length xs = 4096 \<Longrightarrow> take 4095 xs = butlast xs"
  by (simp add: butlast_conv_take)

section \<open>The normalizer\<close>

lemma length_normalizeVector: "length (normalizeVector v) = length v"
  by (simp add: normalizeVector_def Let_def)


section \<open>The encoders and the decoder, unfolded\<close>

lemma vectorWithImportance_eq:
  "vectorWithImportance e x = normalizeVector (truncateForEncoding e) @ [nsqrt x]"
  by (simp add: vectorWithImportance_def Let_def truncateForEncoding_def slice_0_4095
      take_4095_butlast)

lemma searchVector_eq: "searchVector e = truncateForEncoding e @ [Num 0]"
  by (simp add: searchVector_def truncateForEncoding_def slice_0_4095 take_4095_butlast)

lemma getImportance_snoc: "getImportance (xs @ [v]) = npow v 2"
  by (simp add: getImportance_def index_number_def)

lemma truncateForEncoding_map:
  "truncateForEncoding (map f xs) = map f (truncateForEncoding xs)"
  by (simp add: truncateForEncoding_def map_butlast)

section \<open>The query encoder\<close>

text \<open>
  C5. For every embedding, \<open>searchVector\<close> returns the dimension-cap truncation of the
  embedding followed by a literal 0. The truncation is a prefix of the embedding as it was
  received (all of it unless it has 4096 entries, then its first 4095): nothing is
  normalized. In particular the all-zero query of length 2 gives three zeros, and the
  query (3, 4) keeps its entries.
\<close>

theorem searchVector_shape:
  "searchVector e = truncateForEncoding e @ [Num 0]
   \<and> truncateForEncoding e = take (if length e = 4096 then 4095 else length e) e
   \<and> searchVector [Num 0, Num 0] = [Num 0, Num 0, Num 0]
   \<and> searchVector [Num 3, Num 4] = [Num 3, Num 4, Num 0]"
  by (simp add: searchVector_eq truncateForEncoding_def butlast_conv_take)

theorem searchVector_shape_witness:
  "searchVector (replicate 4096 (Num 2)) = replicate 4095 (Num 2) @ [Num 0]"
  using searchVector_shape [of "replicate 4096 (Num 2)"] by simp

text \<open>
  C10. A query vector always decodes to importance zero: for every embedding, of any
  length and content, \<open>getImportance\<close> of \<open>searchVector\<close> is 0.
\<close>

theorem searchVector_importance_zero: "getImportance (searchVector e) = Num 0"
  by (simp add: searchVector_eq getImportance_snoc npow_def)

section \<open>Lengths\<close>

text \<open>
  C6. Stored and query vectors are aligned: for every embedding and every importance,
  \<open>vectorWithImportance\<close> and \<open>searchVector\<close> return vectors of the same length.
\<close>

theorem stored_query_length_aligned:
  "length (vectorWithImportance e x) = length (searchVector e)"
  by (simp add: vectorWithImportance_eq searchVector_eq length_normalizeVector)

text \<open>
  C7. The boundary of the dimension cap: an embedding of exactly 4096 entries is stored
  as a vector of 4096 entries, namely the normalization of its first 4095 entries
  followed by the importance slot, so that the value of the last raw entry has no effect
  on the result; an embedding of 4095 entries is stored as a vector of 4096 entries too.
\<close>

theorem dimension_cap_boundary:
  "(length e = 4096 \<longrightarrow>
      length (vectorWithImportance e x) = 4096
      \<and> vectorWithImportance e x = normalizeVector (butlast e) @ [nsqrt x]
      \<and> vectorWithImportance (butlast e @ [v]) x = vectorWithImportance e x)
   \<and> (length e = 4095 \<longrightarrow> length (vectorWithImportance e x) = 4096)"
  by (simp add: vectorWithImportance_eq truncateForEncoding_def length_normalizeVector)

theorem dimension_cap_boundary_witness:
  "length (replicate 4096 (Num 1)) = 4096
   \<and> length (vectorWithImportance (replicate 4096 (Num 1)) (Num 1)) = 4096
   \<and> vectorWithImportance (replicate 4095 (Num 1) @ [Num 7]) (Num 1)
       = vectorWithImportance (replicate 4096 (Num 1)) (Num 1)
   \<and> length (replicate 4095 (Num 1)) = 4095
   \<and> length (vectorWithImportance (replicate 4095 (Num 1)) (Num 1)) = 4096"
proof -
  have a: "length (replicate 4096 (Num 1)) = 4096"
    and b: "length (replicate 4095 (Num 1)) = 4095"
    and c: "butlast (replicate 4096 (Num 1)) = replicate 4095 (Num 1)"
    by (simp_all add: butlast_conv_take)
  have "length (vectorWithImportance (replicate 4096 (Num 1)) (Num 1)) = 4096
        \<and> vectorWithImportance (butlast (replicate 4096 (Num 1)) @ [Num 7]) (Num 1)
            = vectorWithImportance (replicate 4096 (Num 1)) (Num 1)"
    using dimension_cap_boundary [of "replicate 4096 (Num 1)" "Num 1" "Num 7"] a by blast
  moreover have "length (vectorWithImportance (replicate 4095 (Num 1)) (Num 1)) = 4096"
    using dimension_cap_boundary [of "replicate 4095 (Num 1)" "Num 1" "Num 7"] b by blast
  ultimately show ?thesis using a b by (simp only: c simp_thms)
qed

text \<open>
  C2. The claim as stated, that the stored vector of an embedding of length D has length
  min(D, 4095) + 1 and never more than 4096 entries, fails above the cap: an embedding of
  4097 entries is stored with 4098 entries, and the dimension function maps 4097 to 4098.
\<close>

theorem stored_length_cap_counterexample:
  "length (vectorWithImportance (replicate 4097 (Num 1)) (Num 1))
     \<noteq> min (length (replicate 4097 (Num 1))) 4095 + 1
   \<and> \<not> length (vectorWithImportance (replicate 4097 (Num 1)) (Num 1)) \<le> 4096
   \<and> vectorWithImportanceDimension (Num 4097) = Num 4098"
  by (simp add: vectorWithImportance_eq truncateForEncoding_def length_normalizeVector
      vectorWithImportanceDimension_def strict_eq_def nadd_def)

text \<open>
  C2, amended. For every embedding of length D the stored vector has D entries when D is
  4096 and D + 1 entries otherwise, which is what \<open>vectorWithImportanceDimension\<close>
  returns at D. For D up to 4096 this is min(D, 4095) + 1 and at most 4096.
\<close>

theorem stored_length_formula:
  "length (vectorWithImportance e x) = (if length e = 4096 then length e else length e + 1)
   \<and> vectorWithImportanceDimension (Num (real D)) = Num (real (if D = 4096 then D else D + 1))
   \<and> vectorWithImportanceDimension (Num (real (length e)))
       = Num (real (length (vectorWithImportance e x)))
   \<and> (length e \<le> 4096 \<longrightarrow>
        length (vectorWithImportance e x) = min (length e) 4095 + 1
        \<and> length (vectorWithImportance e x) \<le> 4096)
   \<and> (D \<le> 4096 \<longrightarrow>
        vectorWithImportanceDimension (Num (real D)) = Num (real (min D 4095 + 1))
        \<and> min D 4095 + 1 \<le> 4096)"
proof -
  have l: "length (vectorWithImportance e x)
             = (if length e = 4096 then length e else length e + 1)"
    by (simp add: vectorWithImportance_eq truncateForEncoding_def length_normalizeVector)
  have d: "vectorWithImportanceDimension (Num (real n))
             = Num (real (if n = 4096 then n else n + 1))" for n
    by (simp add: vectorWithImportanceDimension_def strict_eq_def nadd_def)
  have m: "n \<le> 4096 \<Longrightarrow> (if n = 4096 then n else n + 1) = min n 4095 + 1" for n :: nat
    by (simp add: min_def)
  show ?thesis
    unfolding d l using m [of D] m [of "length e"] by (simp add: min_def)
qed

theorem stored_length_formula_witness:
  "length (replicate 4096 (Num 1)) \<le> 4096
   \<and> length (vectorWithImportance (replicate 4096 (Num 1)) (Num 1)) = 4096
   \<and> (4096 :: nat) \<le> 4096
   \<and> vectorWithImportanceDimension (Num 4096) = Num 4096
   \<and> vectorWithImportanceDimension (Num 2) = Num 3
   \<and> length (vectorWithImportance [Num 3, Num 4] (Num 1)) = 3"
  using stored_length_formula [of "replicate 4096 (Num 1)" "Num 1" 4096]
    stored_length_formula [of "[Num 3, Num 4]" "Num 1" 2]
  by simp

section \<open>The importance slot\<close>

text \<open>
  C1. Round trip of the importance: for every embedding and every importance x that is
  not negative (so for every x between 0 and 1), the last entry of the stored vector is
  the square root of x, and decoding the stored vector gives x back.
\<close>

theorem importance_round_trip:
  "0 \<le> x \<longrightarrow>
     last (vectorWithImportance e (Num x)) = Num (sqrt x)
     \<and> getImportance (vectorWithImportance e (Num x)) = Num x"
  by (simp add: vectorWithImportance_eq getImportance_snoc nsqrt_def npow_def)

theorem importance_round_trip_witness:
  "(0::real) \<le> 1 / 2
   \<and> last (vectorWithImportance [Num 3, Num 4] (Num (1 / 2))) = Num (sqrt (1 / 2))
   \<and> getImportance (vectorWithImportance [Num 3, Num 4] (Num (1 / 2))) = Num (1 / 2)"
  using importance_round_trip [of "1 / 2" "[Num 3, Num 4]"] by simp

text \<open>
  C9. The encoder checks nothing and always returns a vector: for every embedding, the
  empty one included, and every importance, the result is the normalized capped
  embedding followed by the square root of the importance, so it is never empty. An
  importance below 0 puts NaN in the last slot; an importance of 0 or more, also above 1,
  puts its square root there.
\<close>

theorem vectorWithImportance_total:
  "vectorWithImportance e x = normalizeVector (truncateForEncoding e) @ [nsqrt x]
   \<and> vectorWithImportance e x \<noteq> []
   \<and> last (vectorWithImportance e x) = nsqrt x
   \<and> vectorWithImportance [] x = [nsqrt x]
   \<and> (r < 0 \<longrightarrow> last (vectorWithImportance e (Num r)) = NaN)
   \<and> (0 \<le> r \<longrightarrow> last (vectorWithImportance e (Num r)) = Num (sqrt r))"
  by (simp add: vectorWithImportance_eq nsqrt_def truncateForEncoding_def normalizeVector_def
      Let_def)

theorem vectorWithImportance_total_witness:
  "vectorWithImportance [] (Num (- 1)) = [NaN]
   \<and> (- 1 :: real) < 0
   \<and> last (vectorWithImportance [Num 3, Num 4] (Num (- 1))) = NaN
   \<and> (0 :: real) \<le> 4
   \<and> last (vectorWithImportance [Num 3, Num 4] (Num 4)) = Num 2"
  using vectorWithImportance_total [of "[]" "Num (- 1)" "- 1"]
    vectorWithImportance_total [of "[Num 3, Num 4]" "Num (- 1)" "- 1"]
    vectorWithImportance_total [of "[Num 3, Num 4]" "Num 4" 4]
  by (simp add: nsqrt_def)

section \<open>Rounding to a double\<close>

text \<open>
  Rounding a real inside the range of the normal doubles changes it by a relative
  \<open>2^-53\<close> at most; a real that is a double is left as it is; below the normal
  range the result is a multiple of \<open>2^-1074\<close>.
\<close>

lemma rne_err: "\<bar>of_int (rne t) - t\<bar> \<le> 1 / 2"
  unfolding rne_def Let_def by (auto; linarith)

lemma rne_of_int: "rne (of_int k) = k"
  by (simp add: rne_def)

lemma powr2_int: "(2::real) powr real_of_int k = 2 powi k"
  by (simp add: powr_real_of_int')

lemma powr2_int_Suc: "(2::real) powr (real_of_int k + 1) = 2 powi (k + 1)"
  using powr2_int [of "k + 1"] by (simp only: of_int_add of_int_1)

lemma floor_log2_eq:
  assumes "0 < x" "2 powi k \<le> x" "x < 2 powi (k + 1)"
  shows "\<lfloor>log 2 x\<rfloor> = k"
  using assms floor_log_eq_powr_iff [of x 2 k]
  by (simp only: powr2_int powr2_int_Suc)

lemma floor_log2_bounds:
  assumes "0 < x"
  shows "2 powi \<lfloor>log 2 x\<rfloor> \<le> x \<and> x < 2 powi (\<lfloor>log 2 x\<rfloor> + 1)"
  using assms floor_log_eq_powr_iff [of x 2 "\<lfloor>log 2 x\<rfloor>"]
  by (simp only: powr2_int powr2_int_Suc) simp

lemma dbl_round_std:
  assumes lo: "1 / 2 ^ 1022 \<le> \<bar>x\<bar>" and hi: "\<bar>x\<bar> \<le> 2 ^ 1023"
  shows "\<exists>x'. dbl_round x = Num x' \<and> \<bar>x' - x\<bar> \<le> \<bar>x\<bar> / 2 ^ 53"
proof -
  define e where "e = \<lfloor>log 2 \<bar>x\<bar>\<rfloor>"
  define q :: real where "q = 2 powi (e - 52)"
  define y where "y = of_int (rne (x / q)) * q"
  have x0: "x \<noteq> 0" and xpos: "0 < \<bar>x\<bar>" using lo by auto
  have eb: "2 powi e \<le> \<bar>x\<bar>" "\<bar>x\<bar> < 2 powi (e + 1)"
    using floor_log2_bounds [OF xpos] by (simp_all add: e_def)
  have "(2::real) powi (- 1022) \<le> \<bar>x\<bar>"
    using lo by (simp add: power_int_minus field_simps)
  then have "(2::real) powi (- 1022) < 2 powi (e + 1)" using eb by linarith
  have "- 1022 < e + 1"
  proof (rule ccontr)
    assume "\<not> - 1022 < e + 1"
    then have "e + 1 \<le> - 1022" by simp
    then have "(2::real) powi (e + 1) \<le> 2 powi (- 1022)"
      by (intro power_int_increasing) simp_all
    with \<open>(2::real) powi (- 1022) < 2 powi (e + 1)\<close> show False by simp
  qed
  then have emax: "max e (- 1022) = e" by simp
  have qpos: "0 < q" by (simp add: q_def)
  have qe: "q = 2 powi e / 2 ^ 52"
    by (simp add: q_def power_int_diff)
  have "y - x = q * (of_int (rne (x / q)) - x / q)"
    using qpos by (simp add: y_def algebra_simps)
  then have "\<bar>y - x\<bar> = q * \<bar>of_int (rne (x / q)) - x / q\<bar>"
    using qpos by (simp only: abs_mult abs_of_pos)
  also have "\<dots> \<le> q * (1 / 2)"
    using qpos rne_err [of "x / q"] by (intro mult_left_mono) simp_all
  also have "\<dots> = 2 powi e / 2 ^ 53" by (simp add: qe)
  also have "\<dots> \<le> \<bar>x\<bar> / 2 ^ 53" using eb by (simp add: divide_right_mono)
  finally have err: "\<bar>y - x\<bar> \<le> \<bar>x\<bar> / 2 ^ 53" .
  have "\<bar>y\<bar> \<le> \<bar>x\<bar> + \<bar>x\<bar> / 2 ^ 53" using err by linarith
  also have "\<dots> \<le> 2 ^ 1023 + 2 ^ 1023 / 2 ^ 53" using hi by (intro add_mono divide_right_mono) simp_all
  also have "\<dots> < (2::real) ^ 1024" by simp
  finally have fin: "\<not> 2 ^ 1024 \<le> \<bar>y\<bar>" by simp
  have "dbl_round x = Num y"
    using x0 fin unfolding dbl_round_def Let_def e_def [symmetric] emax q_def [symmetric] y_def [symmetric]
    by simp
  with err show ?thesis by blast
qed

lemma dbl_round_0: "dbl_round 0 = Num 0"
  by (simp add: dbl_round_def)

lemma floor_log2_less:
  assumes "0 < x" "x < 2 powi k"
  shows "\<lfloor>log 2 x\<rfloor> < k"
proof (rule ccontr)
  assume "\<not> \<lfloor>log 2 x\<rfloor> < k"
  then have "(2::real) powi k \<le> 2 powi \<lfloor>log 2 x\<rfloor>"
    by (intro power_int_increasing) simp_all
  with floor_log2_bounds [OF assms(1)] assms(2) show False by linarith
qed

lemma dbl_round_exact:
  assumes x: "x = of_int m * 2 powi k"
    and m: "2 ^ 52 \<le> \<bar>real_of_int m\<bar>" "\<bar>real_of_int m\<bar> < 2 ^ 53"
    and k: "- 1074 \<le> k" "k \<le> 971"
  shows "dbl_round x = Num x"
proof -
  have ax: "\<bar>x\<bar> = \<bar>real_of_int m\<bar> * 2 powi k"
    unfolding x abs_mult by simp
  have m0: "m \<noteq> 0" using m by auto
  then have x0: "x \<noteq> 0" by (simp add: x)
  have "2 powi (k + 52) = 2 ^ 52 * (2::real) powi k"
    by (simp add: power_int_add)
  also have "\<dots> \<le> \<bar>x\<bar>"
    unfolding ax using m(1) by (intro mult_right_mono) simp_all
  finally have l: "2 powi (k + 52) \<le> \<bar>x\<bar>" .
  have "\<bar>x\<bar> < 2 ^ 53 * (2::real) powi k"
    unfolding ax using m(2) by (intro mult_strict_right_mono) simp_all
  also have "\<dots> = 2 powi (k + 52 + 1)"
    by (simp add: power_int_add)
  finally have u: "\<bar>x\<bar> < 2 powi (k + 52 + 1)" .
  have e: "\<lfloor>log 2 \<bar>x\<bar>\<rfloor> = k + 52"
    using x0 l u by (intro floor_log2_eq) simp_all
  have emax: "max (k + 52) (- 1022) = k + 52" using k by simp
  have q: "x / 2 powi k = of_int m" by (simp add: x)
  have "\<bar>x\<bar> < 2 ^ 53 * (2::real) powi k" by fact
  also have "\<dots> \<le> 2 ^ 53 * 2 powi 971"
    using k by (intro mult_left_mono power_int_increasing) simp_all
  also have "\<dots> = 2 ^ 1024"
    by (simp add: power_int_def)
  finally have fin: "\<not> 2 ^ 1024 \<le> \<bar>x\<bar>" by simp
  have y: "of_int (rne (x / 2 powi (k + 52 - 52))) * 2 powi (k + 52 - 52) = x"
    by (simp add: q rne_of_int) (simp add: x)
  show ?thesis
    unfolding dbl_round_def Let_def e emax y using x0 fin by (simp only: if_False)
qed

lemma dbl_round_subnormal:
  assumes "x \<noteq> 0" "\<bar>x\<bar> < 1 / 2 ^ 1022"
  shows "dbl_round x = Num (of_int (rne (x * 2 ^ 1074)) / 2 ^ 1074)"
proof -
  have "\<bar>x\<bar> < 2 powi (- 1022)" using assms(2) by (simp add: power_int_minus field_simps)
  then have "\<lfloor>log 2 \<bar>x\<bar>\<rfloor> < - 1022" using assms(1) by (intro floor_log2_less) simp_all
  then have emax: "max \<lfloor>log 2 \<bar>x\<bar>\<rfloor> (- 1022) = - 1022" by simp
  have q: "(2::real) powi (- 1022 - 52) = 1 / 2 ^ 1074"
    by (simp add: power_int_minus field_simps)
  have "\<bar>x * 2 ^ 1074\<bar> \<le> 2 ^ 52"
    using assms(2) by (simp add: abs_mult field_simps)
  then have "\<bar>of_int (rne (x * 2 ^ 1074))\<bar> \<le> (2::real) ^ 52 + 1 / 2"
    using rne_err [of "x * 2 ^ 1074"] by linarith
  then have "\<bar>of_int (rne (x * 2 ^ 1074)) / 2 ^ 1074\<bar> \<le> ((2::real) ^ 52 + 1 / 2) / 2 ^ 1074"
    by (simp add: divide_right_mono)
  also have "\<dots> < 2 ^ 1024" by simp
  finally have fin: "\<not> 2 ^ 1024 \<le> \<bar>of_int (rne (x * 2 ^ 1074)) / (2::real) ^ 1074\<bar>" by simp
  show ?thesis
    using assms(1) fin unfolding dbl_round_def Let_def emax q by simp
qed

section \<open>Closeness up to roundings\<close>

text \<open>
  Closeness is kept by sums, products, quotients and square roots of reals that are not
  negative, with the numbers of roundings added up, and the reduction that sums the
  squares stays close to the exact sum as long as every intermediate result is zero or
  inside the range of the normal doubles.
\<close>

lemma c_pos: "0 < 1 - u64" and c_le1: "1 - u64 \<le> 1" and u_pos: "0 < u64"
  by (simp_all add: u64_def)

lemma cj_pos: "0 < (1 - u64) ^ j"
  using c_pos by simp

lemma cj_le1: "(1 - u64) ^ j \<le> 1"
  using c_pos c_le1 by (simp add: power_le_one)

lemma close_refl: "close 0 x x"
  by (simp add: close_def)

lemma close_mono:
  assumes "close j x y" "j \<le> k" "0 \<le> x" "0 \<le> y"
  shows "close k x y"
proof -
  have le: "(1 - u64) ^ k \<le> (1 - u64) ^ j"
    using assms(2) c_pos c_le1 by (intro power_decreasing) simp_all
  have "(1 - u64) ^ k * y \<le> (1 - u64) ^ j * y" "(1 - u64) ^ k * x \<le> (1 - u64) ^ j * x"
    using le assms(3,4) by (simp_all add: mult_right_mono)
  with assms(1) show ?thesis unfolding close_def by linarith
qed

lemma close_add:
  assumes "close j x y" "close j x' y'"
  shows "close j (x + x') (y + y')"
  using assms unfolding close_def by (simp add: distrib_left add_mono)

lemma close_trans:
  assumes "close j x y" "close k y z"
  shows "close (j + k) x z"
proof -
  have "(1 - u64) ^ (j + k) * z = (1 - u64) ^ j * ((1 - u64) ^ k * z)"
    by (simp add: power_add)
  also have "\<dots> \<le> (1 - u64) ^ j * y"
    using assms(2) cj_pos [of j] unfolding close_def by (intro mult_left_mono) simp_all
  also have "\<dots> \<le> x" using assms(1) by (simp add: close_def)
  finally have 1: "(1 - u64) ^ (j + k) * z \<le> x" .
  have "(1 - u64) ^ (j + k) * x = (1 - u64) ^ k * ((1 - u64) ^ j * x)"
    by (simp add: power_add)
  also have "\<dots> \<le> (1 - u64) ^ k * y"
    using assms(1) cj_pos [of k] unfolding close_def by (intro mult_left_mono) simp_all
  also have "\<dots> \<le> z" using assms(2) by (simp add: close_def)
  finally have 2: "(1 - u64) ^ (j + k) * x \<le> z" .
  from 1 2 show ?thesis by (simp add: close_def)
qed

lemma close_mult:
  assumes "close j a A" "close k b B" "0 \<le> a" "0 \<le> A" "0 \<le> b" "0 \<le> B"
  shows "close (j + k) (a * b) (A * B)"
proof -
  have "(1 - u64) ^ (j + k) * (A * B) = ((1 - u64) ^ j * A) * ((1 - u64) ^ k * B)"
    by (simp add: power_add)
  also have "\<dots> \<le> a * b"
    using assms cj_pos [of j] cj_pos [of k] unfolding close_def
    by (intro mult_mono) simp_all
  finally have 1: "(1 - u64) ^ (j + k) * (A * B) \<le> a * b" .
  have "(1 - u64) ^ (j + k) * (a * b) = ((1 - u64) ^ j * a) * ((1 - u64) ^ k * b)"
    by (simp add: power_add)
  also have "\<dots> \<le> A * B"
    using assms cj_pos [of j] cj_pos [of k] unfolding close_def
    by (intro mult_mono) simp_all
  finally have 2: "(1 - u64) ^ (j + k) * (a * b) \<le> A * B" .
  from 1 2 show ?thesis by (simp add: close_def)
qed

lemma close_sym: "close j x y \<Longrightarrow> close j y x"
  by (simp add: close_def)

lemma close_inverse:
  assumes "close k d D" "0 < d" "0 < D"
  shows "close k (1 / d) (1 / D)"
proof -
  have "(1 - u64) ^ k * d \<le> D" "(1 - u64) ^ k * D \<le> d"
    using assms(1) by (simp_all add: close_def)
  then show ?thesis
    using assms(2,3) unfolding close_def by (simp add: field_simps)
qed

lemma close_divide:
  assumes "close j x X" "close k d D" "0 \<le> x" "0 \<le> X" "0 < d" "0 < D"
  shows "close (j + k) (x / d) (X / D)"
  using close_mult [OF assms(1) close_inverse [OF assms(2,5,6)]] assms by simp

lemma close_sqrt:
  assumes "close j x y" "0 \<le> x" "0 \<le> y"
  shows "close j (sqrt x) (sqrt y)"
proof -
  have s: "(1 - u64) ^ j \<le> sqrt ((1 - u64) ^ j)"
  proof (rule real_le_rsqrt)
    have "((1 - u64) ^ j)\<^sup>2 = (1 - u64) ^ j * (1 - u64) ^ j" by (simp add: power2_eq_square)
    also have "\<dots> \<le> (1 - u64) ^ j * 1"
      using cj_pos [of j] cj_le1 [of j] by (intro mult_left_mono) simp_all
    finally show "((1 - u64) ^ j)\<^sup>2 \<le> (1 - u64) ^ j" by simp
  qed
  have "(1 - u64) ^ j * sqrt y \<le> sqrt ((1 - u64) ^ j) * sqrt y"
    using s assms(3) by (intro mult_right_mono) simp_all
  also have "\<dots> = sqrt ((1 - u64) ^ j * y)" by (simp add: real_sqrt_mult)
  also have "\<dots> \<le> sqrt x" using assms(1) by (simp add: close_def)
  finally have 1: "(1 - u64) ^ j * sqrt y \<le> sqrt x" .
  have "(1 - u64) ^ j * sqrt x \<le> sqrt ((1 - u64) ^ j) * sqrt x"
    using s assms(2) by (intro mult_right_mono) simp_all
  also have "\<dots> = sqrt ((1 - u64) ^ j * x)" by (simp add: real_sqrt_mult)
  also have "\<dots> \<le> sqrt y" using assms(1) by (simp add: close_def)
  finally have 2: "(1 - u64) ^ j * sqrt x \<le> sqrt y" .
  from 1 2 show ?thesis by (simp add: close_def)
qed

lemma close_zero: "close j x 0 \<Longrightarrow> 0 \<le> x \<Longrightarrow> x = 0"
  using cj_pos [of j] unfolding close_def
  by (simp add: mult_le_0_iff)

lemma cj_bernoulli: "1 - real j * u64 \<le> (1 - u64) ^ j"
  using Bernoulli_inequality [of "- u64" j] c_pos by simp

lemma cj_half: "j \<le> 2 ^ 52 \<Longrightarrow> 1 / 2 \<le> (1 - u64) ^ j"
proof -
  assume "j \<le> 2 ^ 52"
  then have "real j \<le> 2 ^ 52" by (metis of_nat_le_iff of_nat_numeral of_nat_power)
  then have "real j * u64 \<le> 1 / 2" by (simp add: u64_def field_simps)
  with cj_bernoulli [of j] show ?thesis by linarith
qed

lemma close_lower: "close j x y \<Longrightarrow> j \<le> 2 ^ 52 \<Longrightarrow> 0 \<le> y \<Longrightarrow> y / 2 \<le> x"
proof -
  assume a: "close j x y" "j \<le> 2 ^ 52" "0 \<le> y"
  have "1 / 2 * y \<le> (1 - u64) ^ j * y"
    using cj_half [OF a(2)] a(3) by (intro mult_right_mono) simp_all
  with a(1) show ?thesis by (simp add: close_def)
qed

lemma close_upper: "close j x y \<Longrightarrow> j \<le> 2 ^ 52 \<Longrightarrow> 0 \<le> x \<Longrightarrow> x \<le> 2 * y"
  using close_lower [of j y x] by (simp add: close_sym)

lemma round_factor:
  assumes "x = 0 \<or> (lo64 \<le> \<bar>x\<bar> \<and> \<bar>x\<bar> \<le> hi64)"
  shows "\<exists>f. dbl_round x = Num (x * f) \<and> 1 - u64 \<le> f \<and> f \<le> 1 + u64"
proof (cases "x = 0")
  case True
  then have "dbl_round x = Num (x * 1)" by (simp add: dbl_round_0)
  then show ?thesis using u_pos by (intro exI [of _ 1]) simp
next
  case False
  with assms obtain x' where x': "dbl_round x = Num x'" "\<bar>x' - x\<bar> \<le> \<bar>x\<bar> / 2 ^ 53"
    using dbl_round_std [of x] unfolding lo64_def hi64_def by blast
  have "\<bar>x' / x - 1\<bar> = \<bar>x' - x\<bar> / \<bar>x\<bar>"
    using False by (simp add: abs_divide [symmetric] diff_divide_distrib)
  also have "\<dots> \<le> (\<bar>x\<bar> / 2 ^ 53) / \<bar>x\<bar>"
    using x'(2) by (intro divide_right_mono) simp_all
  also have "\<dots> = u64" using False by (simp add: u64_def)
  finally have "\<bar>x' / x - 1\<bar> \<le> u64" .
  then have "1 - u64 \<le> x' / x" "x' / x \<le> 1 + u64" by linarith+
  moreover have "dbl_round x = Num (x * (x' / x))" using False x'(1) by simp
  ultimately show ?thesis by blast
qed

lemma factor_close:
  assumes "1 - u64 \<le> f" "f \<le> 1 + u64"
  shows "close 1 f 1"
proof -
  have "(1 - u64) * f \<le> (1 - u64) * (1 + u64)"
    using assms(2) c_pos by (intro mult_left_mono) simp_all
  also have "\<dots> = 1 - u64 * u64" by (simp add: algebra_simps)
  also have "\<dots> \<le> 1" by simp
  finally show ?thesis using assms(1) by (simp add: close_def)
qed

lemma round_close:
  assumes "0 \<le> x" "x = 0 \<or> (lo64 \<le> x \<and> x \<le> hi64)"
  shows "\<exists>x'. dbl_round x = Num x' \<and> 0 \<le> x' \<and> close 1 x' x"
proof -
  from assms obtain f where f: "dbl_round x = Num (x * f)" "1 - u64 \<le> f" "f \<le> 1 + u64"
    using round_factor [of x] by auto
  have f0: "0 \<le> f" using f(2) c_pos by linarith
  have "close (0 + 1) (x * f) (x * 1)"
    using assms(1) f0 by (intro close_mult close_refl factor_close f) simp_all
  then show ?thesis using f(1) assms(1) f0 by auto
qed

lemma mul64_Num: "mul64 (Num x) (Num y) = dbl_round (x * y)"
  by (simp add: mul64_def nmul_def round_num_def)

lemma add64_Num: "add64 (Num x) (Num y) = dbl_round (x + y)"
  by (simp add: add64_def nadd_def round_num_def)

lemma foldl64_close:
  assumes "\<forall>r\<in>set rs. r = 0 \<or> (a \<le> \<bar>r\<bar> \<and> \<bar>r\<bar> \<le> b)"
    and "0 < a" "2 * lo64 \<le> a * a"
    and "S + real (length rs) * (b * b) \<le> Bd" "2 * Bd \<le> hi64"
    and "1 \<le> j" "j + length rs \<le> 2 ^ 52"
    and "0 \<le> s" "close j s S" "S = 0 \<or> a * a \<le> S"
  shows "\<exists>s'. foldl (\<lambda>acc v. add64 acc (mul64 v v)) (Num s) (map Num rs) = Num s'
           \<and> 0 \<le> s' \<and> close (j + length rs) s' (S + (\<Sum>r\<leftarrow>rs. r * r))"
  using assms
proof (induction rs arbitrary: s S j)
  case Nil
  then show ?case by simp
next
  case (Cons r rs)
  have S0: "0 \<le> S" using Cons.prems(10) Cons.prems(2) by (auto intro: order_trans [of 0 "a * a"])
  have rok: "r = 0 \<or> (a \<le> \<bar>r\<bar> \<and> \<bar>r\<bar> \<le> b)" using Cons.prems(1) by simp
  have b0: "0 \<le> b * b" by simp
  have rr_le: "r * r \<le> b * b"
  proof (cases "r = 0")
    case True then show ?thesis by simp
  next
    case False
    with rok have "\<bar>r\<bar> \<le> b" by simp
    then have "\<bar>r\<bar> * \<bar>r\<bar> \<le> b * b" by (intro mult_mono) simp_all
    then show ?thesis by (simp add: abs_mult_self_eq)
  qed
  have rr_ge: "r \<noteq> 0 \<Longrightarrow> a * a \<le> r * r"
  proof -
    assume "r \<noteq> 0"
    with rok have "a \<le> \<bar>r\<bar>" by simp
    then have "a * a \<le> \<bar>r\<bar> * \<bar>r\<bar>" using Cons.prems(2) by (intro mult_mono) simp_all
    then show ?thesis by (simp add: abs_mult_self_eq)
  qed
  have len: "real (length (r # rs)) * (b * b) = b * b + real (length rs) * (b * b)"
    by (simp add: algebra_simps)
  have bb: "b * b \<le> Bd"
  proof -
    have "0 \<le> real (length rs) * (b * b)" by simp
    with Cons.prems(4) S0 len show ?thesis by linarith
  qed
  have lo0: "0 < lo64" by (simp add: lo64_def)
  have rr_range: "r * r = 0 \<or> (lo64 \<le> r * r \<and> r * r \<le> hi64)"
  proof (cases "r = 0")
    case True then show ?thesis by simp
  next
    case False
    from rr_ge [OF False] Cons.prems(3) lo0 have 1: "lo64 \<le> r * r" by linarith
    have "0 \<le> Bd" using bb b0 by linarith
    with rr_le bb Cons.prems(5) have 2: "r * r \<le> hi64" by linarith
    from 1 2 show ?thesis by blast
  qed
  obtain t where t: "dbl_round (r * r) = Num t" "0 \<le> t" "close 1 t (r * r)"
    using round_close [OF _ rr_range] by auto
  have j52: "j \<le> 2 ^ 52" using Cons.prems(7) by simp
  have cst: "close j (s + t) (S + r * r)"
    using Cons.prems(9) t Cons.prems(6) by (intro close_add close_mono [of 1 t "r * r" j]) simp_all
  have st0: "0 \<le> s + t" using Cons.prems(8) t(2) by simp
  have Srr0: "0 \<le> S + r * r" using S0 by simp
  have st_range: "s + t = 0 \<or> (lo64 \<le> s + t \<and> s + t \<le> hi64)"
  proof (cases "S + r * r = 0")
    case True
    with cst st0 show ?thesis using close_zero [of j "s + t"] by simp
  next
    case False
    have aS: "a * a \<le> S + r * r"
    proof (cases "r = 0")
      case True
      with False Cons.prems(10) show ?thesis by simp
    next
      case r0: False
      from rr_ge [OF r0] S0 show ?thesis by linarith
    qed
    have lower: "(S + r * r) / 2 \<le> s + t" using close_lower [OF cst j52 Srr0] .
    have upper: "s + t \<le> 2 * (S + r * r)" using close_upper [OF cst j52 st0] .
    have SB: "S + r * r \<le> Bd"
    proof -
      have "0 \<le> real (length rs) * (b * b)" by simp
      with Cons.prems(4) len rr_le show ?thesis by linarith
    qed
    have "2 * lo64 \<le> S + r * r" using aS Cons.prems(3) by (rule order_trans [rotated])
    then have 1: "lo64 \<le> s + t" using lower by simp
    have "2 * (S + r * r) \<le> 2 * Bd" using SB by simp
    then have 2: "s + t \<le> hi64" using upper Cons.prems(5) by simp
    from 1 2 show ?thesis by blast
  qed
  obtain s2 where s2: "dbl_round (s + t) = Num s2" "0 \<le> s2" "close 1 s2 (s + t)"
    using round_close [OF st0 st_range] by auto
  have c2: "close (Suc j) s2 (S + r * r)"
    using close_trans [OF s2(3) cst] by simp
  have S2: "S + r * r = 0 \<or> a * a \<le> S + r * r"
  proof (cases "r = 0")
    case True with Cons.prems(10) show ?thesis by simp
  next
    case False
    from rr_ge [OF False] S0 show ?thesis by simp
  qed
  have Bd2: "S + r * r + real (length rs) * (b * b) \<le> Bd"
    using Cons.prems(4) len rr_le by linarith
  have "\<exists>s'. foldl (\<lambda>acc v. add64 acc (mul64 v v)) (Num s2) (map Num rs) = Num s'
           \<and> 0 \<le> s' \<and> close (Suc j + length rs) s' (S + r * r + (\<Sum>r\<leftarrow>rs. r * r))"
    using Cons.prems(1,2,3,5,7) Bd2 s2(2) c2 S2
    by (intro Cons.IH) simp_all
  then show ?case
    by (simp add: mul64_Num add64_Num t(1) s2(1) add.assoc)
qed

section \<open>The normalizer on doubles\<close>

text \<open>
  On a vector of reals whose squares, sums and quotients stay in range, the computed
  magnitude is close to the Euclidean one, every entry of the result is the exact
  quotient times a rounding factor, and the squares of the result sum to 1 up to
  roundings.
\<close>

lemma close_tolerance:
  assumes "close K x y" "K \<le> 2 ^ 14" "0 \<le> x" "0 \<le> y"
  shows "\<bar>x - y\<bar> \<le> y / 2 ^ 38"
proof -
  define eps :: real where "eps = 1 / 2 ^ 39"
  have "real K \<le> 2 ^ 14" using assms(2) by (metis of_nat_le_iff of_nat_numeral of_nat_power)
  then have "real K * u64 \<le> 2 ^ 14 * u64" using u_pos by (intro mult_right_mono) simp_all
  also have "\<dots> = eps" by (simp add: u64_def eps_def)
  finally have "1 - eps \<le> (1 - u64) ^ K" using cj_bernoulli [of K] by linarith
  moreover have e: "0 < eps" "eps \<le> 1 / 2" by (simp_all add: eps_def)
  ultimately have c: "1 - eps \<le> (1 - u64) ^ K" "0 < 1 - eps" by simp_all
  have "(1 - eps) * y \<le> (1 - u64) ^ K * y" using c(1) assms(4) by (intro mult_right_mono)
  also have "\<dots> \<le> x" using assms(1) by (simp add: close_def)
  finally have lower: "y - x \<le> eps * y" by (simp add: algebra_simps)
  have "(1 - eps) * x \<le> (1 - u64) ^ K * x" using c(1) assms(3) by (intro mult_right_mono)
  also have "\<dots> \<le> y" using assms(1) by (simp add: close_def)
  also have "\<dots> \<le> (1 - eps) * ((1 + 2 * eps) * y)"
  proof -
    have "0 \<le> eps * (1 - 2 * eps) * y" using e assms(4) by simp
    moreover have "(1 - eps) * ((1 + 2 * eps) * y) = y + eps * (1 - 2 * eps) * y"
      by (simp add: algebra_simps)
    ultimately show ?thesis by linarith
  qed
  finally have "x \<le> (1 + 2 * eps) * y" using c(2) by simp
  then have upper: "x - y \<le> 2 * eps * y" by (simp add: algebra_simps)
  have "eps * y \<le> 2 * eps * y" using e assms(4) by simp
  with lower upper have "\<bar>x - y\<bar> \<le> 2 * eps * y" by linarith
  also have "2 * eps * y = y / 2 ^ 38" by (simp add: eps_def)
  finally show ?thesis .
qed

lemma sqrt_in_range:
  assumes "lo64 \<le> x" "x \<le> hi64"
  shows "lo64 \<le> sqrt x \<and> sqrt x \<le> hi64"
proof -
  have lo: "0 < lo64" "lo64 \<le> 1" and hi: "1 \<le> hi64" by (simp_all add: lo64_def hi64_def)
  have x0: "0 \<le> x" using assms(1) lo by linarith
  show ?thesis
  proof (cases "x \<le> 1")
    case True
    have "x\<^sup>2 \<le> x" using x0 True by (simp add: power2_eq_square mult_left_le)
    then have "x \<le> sqrt x" by (rule real_le_rsqrt)
    moreover have "sqrt x \<le> 1" using True by simp
    ultimately show ?thesis using assms lo hi by linarith
  next
    case False
    then have x1: "1 \<le> x" by simp
    then have "x \<le> x\<^sup>2" by (simp add: power2_eq_square)
    then have "sqrt x \<le> x" using x0 by (intro real_le_lsqrt)
    moreover have "1 \<le> sqrt x" using x1 by simp
    ultimately show ?thesis using assms lo hi by linarith
  qed
qed

lemma sq_le_sum: "r \<in> set rs \<Longrightarrow> r * r \<le> (\<Sum>r\<leftarrow>rs. r * r)" for r :: real
proof (induction rs)
  case Nil
  then show ?case by simp
next
  case (Cons x xs)
  have 1: "0 \<le> (\<Sum>r\<leftarrow>xs. r * r)" by (induction xs) simp_all
  have 2: "0 \<le> x * x" by simp
  show ?case
  proof (cases "r = x")
    case True
    with 1 show ?thesis by simp
  next
    case False
    with Cons have "r * r \<le> (\<Sum>r\<leftarrow>xs. r * r)" by simp
    then have "r * r \<le> x * x + (\<Sum>r\<leftarrow>xs. r * r)" by (rule add_increasing [OF 2])
    then show ?thesis by simp
  qed
qed

lemma sum_sq_bound:
  "\<forall>r\<in>set rs. r * r \<le> c \<Longrightarrow> (\<Sum>r\<leftarrow>rs. r * r) \<le> real (length rs) * c" for c :: real
  by (induction rs) (simp_all add: algebra_simps)

lemma sqrt64_Num: "0 \<le> x \<Longrightarrow> sqrt64 (Num x) = dbl_round (sqrt x)"
  by (simp add: sqrt64_def nsqrt_def round_num_def)

lemma div64_Num: "y \<noteq> 0 \<Longrightarrow> div64 (Num x) (Num y) = dbl_round (x / y)"
  by (simp add: div64_def ndiv_def round_num_def)

lemma abs_sq_le: "\<bar>r\<bar> \<le> b \<Longrightarrow> r * r \<le> b * b" for r :: real
proof -
  assume "\<bar>r\<bar> \<le> b"
  then have "\<bar>r\<bar> * \<bar>r\<bar> \<le> b * b" by (intro mult_mono) simp_all
  then show ?thesis by simp
qed

lemma abs_sq_ge: "0 \<le> a \<Longrightarrow> a \<le> \<bar>r\<bar> \<Longrightarrow> a * a \<le> r * r" for r :: real
proof -
  assume "0 \<le> a" "a \<le> \<bar>r\<bar>"
  then have "a * a \<le> \<bar>r\<bar> * \<bar>r\<bar>" by (intro mult_mono) simp_all
  then show ?thesis by simp
qed

lemma magnitude64_close:
  assumes ok: "\<forall>r\<in>set rs. r = 0 \<or> (a \<le> \<bar>r\<bar> \<and> \<bar>r\<bar> \<le> b)"
    and nz: "\<exists>r\<in>set rs. r \<noteq> 0"
    and a: "0 < a" "2 * lo64 \<le> a * a"
    and Bd: "real (length rs) * (b * b) \<le> Bd" "2 * Bd \<le> hi64"
    and n: "length rs + 3 \<le> 2 ^ 52"
  shows "\<exists>m. magnitude64 (map Num rs) = Num m \<and> 0 < m
           \<and> close (length rs + 2) m (sqrt (\<Sum>r\<leftarrow>rs. r * r))
           \<and> a * a \<le> (\<Sum>r\<leftarrow>rs. r * r) \<and> (\<Sum>r\<leftarrow>rs. r * r) \<le> Bd"
proof -
  define S where "S = (\<Sum>r\<leftarrow>rs. r * r)"
  obtain r0 where r0: "r0 \<in> set rs" "r0 \<noteq> 0" using nz by blast
  with ok have "a \<le> \<bar>r0\<bar>" by auto
  then have "a * a \<le> r0 * r0" using a(1) by (intro abs_sq_ge) simp_all
  also have "\<dots> \<le> S" unfolding S_def using r0(1) by (rule sq_le_sum)
  finally have Sa: "a * a \<le> S" .
  have lo0: "0 < lo64" by (simp add: lo64_def)
  have S0: "0 < S" using Sa a(2) lo0 by linarith
  have "\<forall>r\<in>set rs. r * r \<le> b * b"
    using ok by (auto intro: abs_sq_le)
  then have "S \<le> real (length rs) * (b * b)" unfolding S_def by (rule sum_sq_bound)
  then have SB: "S \<le> Bd" using Bd(1) by linarith
  have "\<exists>s'. foldl (\<lambda>acc v. add64 acc (mul64 v v)) (Num 0) (map Num rs) = Num s'
           \<and> 0 \<le> s' \<and> close (1 + length rs) s' (0 + (\<Sum>r\<leftarrow>rs. r * r))"
    using ok a Bd n by (intro foldl64_close [where a = a and b = b and Bd = Bd])
      (simp_all add: close_def)
  then obtain s' where s': "foldl (\<lambda>acc v. add64 acc (mul64 v v)) (Num 0) (map Num rs) = Num s'"
      "0 \<le> s'" "close (1 + length rs) s' S"
    by (auto simp: S_def)
  have n1: "1 + length rs \<le> 2 ^ 52" using n by simp
  have "S / 2 \<le> s'" using close_lower [OF s'(3) n1] S0 by simp
  then have s'lo: "lo64 \<le> s'" using Sa a(2) by linarith
  have "s' \<le> 2 * S" using close_upper [OF s'(3) n1 s'(2)] .
  then have s'hi: "s' \<le> hi64" using SB Bd(2) by linarith
  have rng: "lo64 \<le> sqrt s' \<and> sqrt s' \<le> hi64" using sqrt_in_range [OF s'lo s'hi] .
  have "0 \<le> sqrt s'" using s'(2) by simp
  then obtain m where m: "dbl_round (sqrt s') = Num m" "0 \<le> m" "close 1 m (sqrt s')"
    using round_close [of "sqrt s'"] rng by blast
  have "close (1 + length rs) (sqrt s') (sqrt S)"
    using s'(3) s'(2) S0 by (intro close_sqrt) simp_all
  then have cm: "close (length rs + 2) m (sqrt S)"
    using close_trans [OF m(3)] by (simp add: add.commute)
  have n2: "length rs + 2 \<le> 2 ^ 52" using n by simp
  have "sqrt S / 2 \<le> m" using close_lower [OF cm n2] S0 by simp
  moreover have "0 < sqrt S" using S0 by simp
  ultimately have mpos: "0 < m" by linarith
  have "magnitude64 (map Num rs) = Num m"
    by (simp add: magnitude64_def s'(1) sqrt64_Num s'(2) m(1))
  with mpos cm Sa SB show ?thesis unfolding S_def by blast
qed

lemma normalizeVector64_magnitude:
  "normalizeVector64 v =
     (if magnitude64 v = Num 0 then replicate (length v) (Num 0)
      else map (\<lambda>x. div64 x (magnitude64 v)) v)"
  by (simp add: normalizeVector64_def magnitude64_def Let_def strict_eq_def map_replicate_const)

lemma normalize64_close:
  assumes ok: "\<forall>r\<in>set rs. r = 0 \<or> (a \<le> \<bar>r\<bar> \<and> \<bar>r\<bar> \<le> b)"
    and nz: "\<exists>r\<in>set rs. r \<noteq> 0"
    and a: "0 < a" "2 * lo64 \<le> a * a"
    and Bd: "real (length rs) * (b * b) \<le> Bd" "2 * Bd \<le> hi64"
    and Mb: "Bd \<le> Mb * Mb" "0 < Mb" "2 * Mb * lo64 \<le> a"
    and n: "length rs + 3 \<le> 2 ^ 52"
  shows "\<exists>m g. normalizeVector64 (map Num rs) = map (\<lambda>r. Num (r / m * g r)) rs
           \<and> 0 < m \<and> close (length rs + 2) m (sqrt (\<Sum>r\<leftarrow>rs. r * r))
           \<and> 0 < (\<Sum>r\<leftarrow>rs. r * r)
           \<and> (\<forall>r. 1 - u64 \<le> g r \<and> g r \<le> 1 + u64)
           \<and> (\<forall>r\<in>set rs. \<bar>r / m\<bar> \<le> 2 \<and> (r \<noteq> 0 \<longrightarrow> a / (2 * Mb) \<le> \<bar>r / m\<bar>))"
proof -
  define S where "S = (\<Sum>r\<leftarrow>rs. r * r)"
  obtain m where m: "magnitude64 (map Num rs) = Num m" "0 < m"
      "close (length rs + 2) m (sqrt S)" "a * a \<le> S" "S \<le> Bd"
    using magnitude64_close [OF ok nz a Bd n] unfolding S_def by blast
  have lo0: "0 < lo64" and hi2: "2 \<le> hi64" by (simp_all add: lo64_def hi64_def)
  have S0: "0 < S" using m(4) a(2) lo0 by linarith
  have M0: "0 < sqrt S" using S0 by simp
  have n2: "length rs + 2 \<le> 2 ^ 52" using n by simp
  have mlow: "sqrt S / 2 \<le> m" using close_lower [OF m(3) n2] M0 by simp
  have mup: "m \<le> 2 * sqrt S" using close_upper [OF m(3) n2] m(2) by simp
  have "S \<le> Mb\<^sup>2" using m(5) Mb(1) by (simp add: power2_eq_square)
  then have MMb: "sqrt S \<le> Mb" using Mb(2) by (intro real_le_lsqrt) simp_all
  have m2Mb: "m \<le> 2 * Mb" using mup MMb by linarith
  have in_rng: "\<bar>r / m\<bar> \<le> 2 \<and> (r \<noteq> 0 \<longrightarrow> a / (2 * Mb) \<le> \<bar>r / m\<bar>)" if r: "r \<in> set rs" for r
  proof -
    have "\<bar>r\<bar>\<^sup>2 \<le> S" using sq_le_sum [OF r] by (simp add: S_def power2_eq_square)
    then have "\<bar>r\<bar> \<le> sqrt S" by (rule real_le_rsqrt)
    then have "\<bar>r\<bar> \<le> 2 * m" using mlow by linarith
    then have 1: "\<bar>r / m\<bar> \<le> 2" using m(2) by (simp add: field_simps)
    have 2: "a / (2 * Mb) \<le> \<bar>r / m\<bar>" if "r \<noteq> 0"
    proof -
      from that ok r have "a \<le> \<bar>r\<bar>" by auto
      then have "a / (2 * Mb) \<le> \<bar>r\<bar> / (2 * Mb)" using Mb(2) by (simp add: divide_right_mono)
      also have "\<dots> \<le> \<bar>r\<bar> / m" using m2Mb m(2) by (intro divide_left_mono) simp_all
      finally show ?thesis using m(2) by simp
    qed
    from 1 2 show ?thesis by blast
  qed
  have lo_le: "lo64 \<le> a / (2 * Mb)" using Mb(2,3) by (simp add: field_simps)
  have "\<exists>f. (r \<in> set rs \<longrightarrow> dbl_round (r / m) = Num (r / m * f)) \<and> 1 - u64 \<le> f \<and> f \<le> 1 + u64" for r
  proof (cases "r \<in> set rs")
    case True
    have "r / m = 0 \<or> (lo64 \<le> \<bar>r / m\<bar> \<and> \<bar>r / m\<bar> \<le> hi64)"
    proof (cases "r = 0")
      case True then show ?thesis by simp
    next
      case False
      with in_rng [OF True] lo_le hi2 show ?thesis by linarith
    qed
    then show ?thesis using round_factor [of "r / m"] by blast
  next
    case False
    then show ?thesis using u_pos by (intro exI [of _ 1]) simp
  qed
  then obtain g where g: "\<And>r. r \<in> set rs \<Longrightarrow> dbl_round (r / m) = Num (r / m * g r)"
      "\<And>r. 1 - u64 \<le> g r \<and> g r \<le> 1 + u64"
    by metis
  have "magnitude64 (map Num rs) \<noteq> Num 0" using m(1,2) by simp
  then have "normalizeVector64 (map Num rs) = map (\<lambda>r. Num (r / m * g r)) rs"
    using m(1,2) g(1) by (simp add: normalizeVector64_magnitude div64_Num)
  with m(2,3) S0 g(2) in_rng show ?thesis unfolding S_def by blast
qed

lemma scaled_sq_sum_close:
  fixes rs :: "real list"
  assumes "\<forall>r. 1 - u64 \<le> g r \<and> g r \<le> 1 + u64"
  shows "close 2 (\<Sum>r\<leftarrow>rs. r * r * (g r * g r)) (\<Sum>r\<leftarrow>rs. r * r)"
proof (induction rs)
  case Nil
  show ?case by (simp add: close_def)
next
  case (Cons r rs)
  have g0: "0 \<le> g r" using assms c_pos by (metis less_eq_real_def order_trans)
  have g1: "close 1 (g r) 1" using assms by (intro factor_close) simp_all
  have gg: "close (1 + 1) (g r * g r) (1 * 1)"
    by (rule close_mult [OF g1 g1]) (use g0 in simp_all)
  have "close (0 + (1 + 1)) (r * r * (g r * g r)) (r * r * (1 * 1))"
    by (rule close_mult [OF close_refl gg]) (use g0 in simp_all)
  then have "close 2 (r * r * (g r * g r)) (r * r)" by (simp add: numeral_2_eq_2)
  then have "close 2 (r * r * (g r * g r) + (\<Sum>r\<leftarrow>rs. r * r * (g r * g r)))
               (r * r + (\<Sum>r\<leftarrow>rs. r * r))"
    using Cons by (rule close_add)
  then show ?case by simp
qed

lemma scaled_sq_sum_eq:
  "(\<Sum>r\<leftarrow>rs. (r / m * g r) * (r / m * g r)) = (\<Sum>r\<leftarrow>rs. r * r * (g r * g r)) / (m * m)"
  for rs :: "real list"
  by (induction rs) (simp_all add: add_divide_distrib)

lemma sum_sq_nonneg': "0 \<le> (\<Sum>r\<leftarrow>rs. f r * f r)" for f :: "real \<Rightarrow> real"
  by (induction rs) simp_all

lemma normalized_sq_sum_close:
  assumes g: "\<forall>r. 1 - u64 \<le> g r \<and> g r \<le> 1 + u64"
    and m: "0 < m" "close k m (sqrt (\<Sum>r\<leftarrow>rs. r * r))"
    and S: "0 < (\<Sum>r\<leftarrow>rs. r * r)"
  shows "close (2 + (k + k)) (\<Sum>r\<leftarrow>rs. (r / m * g r) * (r / m * g r)) 1"
proof -
  define S where "S = (\<Sum>r\<leftarrow>rs. r * r)"
  define X where "X = (\<Sum>r\<leftarrow>rs. r * r * (g r * g r))"
  have S0: "0 < S" using S by (simp add: S_def)
  have X0: "0 \<le> X"
  proof -
    have "X = (\<Sum>r\<leftarrow>rs. (r * g r) * (r * g r))" by (simp add: X_def algebra_simps)
    then show ?thesis using sum_sq_nonneg' [of "\<lambda>r. r * g r" rs] by simp
  qed
  have A: "close 2 X S" unfolding X_def S_def using g by (rule scaled_sq_sum_close)
  have mS: "close k m (sqrt S)" using m(2) by (simp add: S_def)
  have "close (k + k) (m * m) (sqrt S * sqrt S)"
    by (rule close_mult [OF mS mS]) (use m(1) S0 in simp_all)
  then have C: "close (k + k) (m * m) S" using S0 by simp
  have D: "close (2 + (k + k)) (X / (m * m)) (S / S)"
    by (rule close_divide [OF A C]) (use X0 S0 m(1) in simp_all)
  have e: "(\<Sum>r\<leftarrow>rs. (r / m * g r) * (r / m * g r)) = X / (m * m)"
    unfolding X_def by (rule scaled_sq_sum_eq)
  have one: "S / S = 1" using S0 by simp
  from D show ?thesis unfolding e one .
qed

section \<open>Doubles evaluated\<close>

text \<open>
  The normalizer on doubles at concrete inputs, among them an entry whose square is
  rounded in the subnormal range and one whose square is rounded to 0.
\<close>

lemma dbl_round_1: "dbl_round 1 = Num 1"
  by (rule dbl_round_exact [where m = "2 ^ 52" and k = "- 52"]) (simp_all add: power_int_minus)

lemma dbl_round_3_4: "dbl_round (3 / 4) = Num (3 / 4)"
  by (rule dbl_round_exact [where m = "3 * 2 ^ 51" and k = "- 53"]) (simp_all add: power_int_minus)

lemma dbl_round_9_16: "dbl_round (9 / 16) = Num (9 / 16)"
  by (rule dbl_round_exact [where m = "9 * 2 ^ 49" and k = "- 53"]) (simp_all add: power_int_minus)

lemma dbl_round_tiny_root: "dbl_round (1 / 2 ^ 537) = Num (1 / 2 ^ 537)"
  by (rule dbl_round_exact [where m = "2 ^ 52" and k = "- 589"]) (simp_all add: power_int_minus)

lemma dbl_round_tiny_square: "dbl_round (9 / 2 ^ 1078) = Num (1 / 2 ^ 1074)"
proof -
  have "rne (9 / 16) = 1" by (simp add: rne_def)
  then show ?thesis
    using dbl_round_subnormal [of "9 / 2 ^ 1078"] by simp
qed

lemma dbl_round_min: "dbl_round (1 / 2 ^ 1074) = Num (1 / 2 ^ 1074)"
  using dbl_round_subnormal [of "1 / 2 ^ 1074"] by (simp add: rne_def)

lemma magnitude64_tiny: "magnitude64 [Num (3 / 2 ^ 539)] = Num (1 / 2 ^ 537)"
proof -
  have sq: "(3 / 2 ^ 539) * (3 / 2 ^ 539) = (9 / 2 ^ 1078 :: real)" by simp
  have rt: "sqrt (1 / 2 ^ 1074) = 1 / 2 ^ 537"
    by (rule real_sqrt_unique) (simp_all add: power_divide)
  have "mul64 (Num (3 / 2 ^ 539)) (Num (3 / 2 ^ 539)) = Num (1 / 2 ^ 1074)"
    unfolding mul64_Num sq by (rule dbl_round_tiny_square)
  moreover have "add64 (Num 0) (Num (1 / 2 ^ 1074)) = Num (1 / 2 ^ 1074)"
    unfolding add64_Num add_0 by (rule dbl_round_min)
  moreover have "sqrt64 (Num (1 / 2 ^ 1074)) = Num (1 / 2 ^ 537)"
  proof -
    have "sqrt64 (Num (1 / 2 ^ 1074)) = dbl_round (sqrt (1 / 2 ^ 1074))"
      by (rule sqrt64_Num) simp
    then show ?thesis unfolding rt dbl_round_tiny_root .
  qed
  ultimately show ?thesis by (simp only: magnitude64_def foldl.simps)
qed

lemma normalizeVector64_tiny: "normalizeVector64 [Num (3 / 2 ^ 539)] = [Num (3 / 4)]"
proof -
  have q: "(3 / 2 ^ 539) / (1 / 2 ^ 537) = (3 / 4 :: real)" by simp
  have "div64 (Num (3 / 2 ^ 539)) (Num (1 / 2 ^ 537)) = dbl_round ((3 / 2 ^ 539) / (1 / 2 ^ 537))"
    by (rule div64_Num) simp
  then have "div64 (Num (3 / 2 ^ 539)) (Num (1 / 2 ^ 537)) = Num (3 / 4)"
    unfolding q dbl_round_3_4 .
  note d = this
  have ne: "Num (1 / 2 ^ 537) \<noteq> Num 0" by simp
  show ?thesis
    unfolding normalizeVector64_magnitude magnitude64_tiny
    by (simp only: ne if_False list.map d)
qed

lemma magnitude64_3_4: "magnitude64 [Num (3 / 4)] = Num (3 / 4)"
proof -
  have sq: "(3 / 4) * (3 / 4) = (9 / 16 :: real)" by simp
  have rt: "sqrt (9 / 16) = 3 / 4"
    by (rule real_sqrt_unique) (simp_all add: power_divide)
  have "mul64 (Num (3 / 4)) (Num (3 / 4)) = Num (9 / 16)"
    unfolding mul64_Num sq by (rule dbl_round_9_16)
  moreover have "add64 (Num 0) (Num (9 / 16)) = Num (9 / 16)"
    unfolding add64_Num add_0 by (rule dbl_round_9_16)
  moreover have "sqrt64 (Num (9 / 16)) = Num (3 / 4)"
  proof -
    have "sqrt64 (Num (9 / 16)) = dbl_round (sqrt (9 / 16))"
      by (rule sqrt64_Num) simp
    then show ?thesis unfolding rt dbl_round_3_4 .
  qed
  ultimately show ?thesis by (simp only: magnitude64_def foldl.simps)
qed

lemma normalizeVector64_3_4: "normalizeVector64 [Num (3 / 4)] = [Num 1]"
proof -
  have d: "div64 (Num (3 / 4)) (Num (3 / 4)) = Num 1"
    using dbl_round_1 by (simp add: div64_Num)
  have ne: "Num (3 / 4) \<noteq> Num 0" by simp
  show ?thesis
    unfolding normalizeVector64_magnitude magnitude64_3_4
    by (simp only: ne if_False list.map d)
qed

lemma foldl64_zeros:
  "foldl (\<lambda>acc v. add64 acc (mul64 v v)) (Num 0) (replicate n (Num 0)) = Num 0"
  by (induction n) (simp_all add: mul64_Num add64_Num dbl_round_0)

lemma magnitude64_zeros: "magnitude64 (replicate n (Num 0)) = Num 0"
  by (simp add: magnitude64_def foldl64_zeros sqrt64_Num dbl_round_0)

lemma normalizeVector64_zeros: "normalizeVector64 (replicate n (Num 0)) = replicate n (Num 0)"
  by (simp add: normalizeVector64_magnitude magnitude64_zeros)

lemma length_normalizeVector64: "length (normalizeVector64 v) = length v"
  by (simp add: normalizeVector64_magnitude)

lemma vectorWithImportance64_eq:
  "vectorWithImportance64 e x = normalizeVector64 (truncateForEncoding e) @ [sqrt64 x]"
  by (simp add: vectorWithImportance64_def Let_def truncateForEncoding_def slice_0_4095
      take_4095_butlast)

lemma modifyImportance64_eq:
  "modifyImportance64 v x = vectorWithImportance64 (butlast v) x"
  unfolding modifyImportance64_def Let_def slice_drop_last by simp




section \<open>The normalizer within the range\<close>

text \<open>
  The bounds above for vectors of up to 4096 entries that are zero or between
  \<open>2^-200\<close> and \<open>2^200\<close> in magnitude, and for the normalized vector normalized
  once more.
\<close>

lemma normalize64_safe:
  assumes ok: "\<forall>r\<in>set rs. safe_entry r" and nz: "\<exists>r\<in>set rs. r \<noteq> 0"
    and len: "length rs \<le> 4096"
  shows "\<exists>m g. normalizeVector64 (map Num rs) = map (\<lambda>r. Num (r / m * g r)) rs
           \<and> 0 < m \<and> close (length rs + 2) m (sqrt (\<Sum>r\<leftarrow>rs. r * r))
           \<and> 0 < (\<Sum>r\<leftarrow>rs. r * r)
           \<and> (\<forall>r. 1 - u64 \<le> g r \<and> g r \<le> 1 + u64)
           \<and> (\<forall>r\<in>set rs. \<bar>r / m\<bar> \<le> 2 \<and> (r \<noteq> 0 \<longrightarrow> 1 / 2 ^ 407 \<le> \<bar>r / m\<bar>))"
proof -
  have ok': "\<forall>r\<in>set rs. r = 0 \<or> (1 / 2 ^ 200 \<le> \<bar>r\<bar> \<and> \<bar>r\<bar> \<le> 2 ^ 200)"
    using ok by (simp add: safe_entry_def)
  have "real (length rs) \<le> 4096" using len by simp
  then have "real (length rs) * (2 ^ 200 * 2 ^ 200) \<le> 4096 * (2 ^ 200 * 2 ^ 200)"
    by (intro mult_right_mono) simp_all
  also have "\<dots> = (2::real) ^ 412" by simp
  finally have Bd: "real (length rs) * (2 ^ 200 * 2 ^ 200) \<le> (2::real) ^ 412" .
  have n: "length rs + 3 \<le> 2 ^ 52" using len by simp
  have q: "(1 / 2 ^ 200) / (2 * 2 ^ 206) = (1 / 2 ^ 407 :: real)" by simp
  show ?thesis
    using normalize64_close [where a = "1 / 2 ^ 200" and b = "2 ^ 200" and Bd = "2 ^ 412"
        and Mb = "2 ^ 206", OF ok' nz _ _ Bd _ _ _ _ n]
    unfolding q by (simp add: lo64_def hi64_def)
qed

lemma close_to_one_sqrt:
  assumes "close K y 1" "K \<le> 2 ^ 14" "0 \<le> y"
  shows "\<bar>sqrt y - 1\<bar> \<le> 1 / 2 ^ 38"
proof -
  have "close K (sqrt y) (sqrt 1)" using assms by (intro close_sqrt) simp_all
  then have "close K (sqrt y) 1" by simp
  then show ?thesis using close_tolerance [of K "sqrt y" 1] assms by simp
qed

lemma vectorWithImportance64_short:
  "length e \<noteq> 4096 \<Longrightarrow> vectorWithImportance64 e x = normalizeVector64 e @ [sqrt64 x]"
  by (simp add: vectorWithImportance64_eq truncateForEncoding_def)

lemma modifyImportance64_stored:
  "modifyImportance64 (vectorWithImportance64 e x1) x2
     = normalizeVector64 (normalizeVector64 (truncateForEncoding e)) @ [sqrt64 x2]"
proof -
  have "length (normalizeVector64 (truncateForEncoding e)) \<noteq> 4096"
    by (simp add: length_normalizeVector64 truncateForEncoding_def)
  then show ?thesis
    by (simp add: modifyImportance64_eq vectorWithImportance64_eq [of e]
        vectorWithImportance64_short)
qed

lemma factor_half: "1 - u64 \<le> f \<Longrightarrow> f \<le> 1 + u64 \<Longrightarrow> 1 / 2 \<le> f \<and> f \<le> 2"
proof -
  have "u64 \<le> 1 / 2" by (simp add: u64_def)
  then show "1 - u64 \<le> f \<Longrightarrow> f \<le> 1 + u64 \<Longrightarrow> 1 / 2 \<le> f \<and> f \<le> 2" by linarith
qed

lemma renormalize64_close:
  assumes ok: "\<forall>r\<in>set t. safe_entry r" and nz: "\<exists>r\<in>set t. r \<noteq> 0"
    and len: "length t \<le> 4096"
  shows "\<exists>ws ws'. normalizeVector64 (map Num t) = map Num ws
           \<and> normalizeVector64 (map Num ws) = map Num ws'
           \<and> list_all2 (\<lambda>w w'. \<bar>w' - w\<bar> \<le> \<bar>w\<bar> / 2 ^ 38) ws ws'"
proof -
  obtain m g where mg: "normalizeVector64 (map Num t) = map (\<lambda>r. Num (r / m * g r)) t"
      "0 < m" "close (length t + 2) m (sqrt (\<Sum>r\<leftarrow>t. r * r))" "0 < (\<Sum>r\<leftarrow>t. r * r)"
      "\<forall>r. 1 - u64 \<le> g r \<and> g r \<le> 1 + u64"
      "\<forall>r\<in>set t. \<bar>r / m\<bar> \<le> 2 \<and> (r \<noteq> 0 \<longrightarrow> 1 / 2 ^ 407 \<le> \<bar>r / m\<bar>)"
    using normalize64_safe [OF ok nz len] by blast
  define ws where "ws = map (\<lambda>r. r / m * g r) t"
  have e1: "normalizeVector64 (map Num t) = map Num ws" by (simp add: mg(1) ws_def o_def)
  have lws: "length ws = length t" by (simp add: ws_def)
  have gh: "1 / 2 \<le> g r \<and> g r \<le> 2" for r using mg(5) factor_half by blast
  have wabs: "\<bar>r / m * g r\<bar> = \<bar>r / m\<bar> * g r" for r
    using gh [of r] by (simp add: abs_mult)
  have ok2: "\<forall>w\<in>set ws. w = 0 \<or> (1 / 2 ^ 408 \<le> \<bar>w\<bar> \<and> \<bar>w\<bar> \<le> 4)"
  proof
    fix w assume "w \<in> set ws"
    then obtain r where r: "r \<in> set t" "w = r / m * g r" by (auto simp: ws_def)
    show "w = 0 \<or> (1 / 2 ^ 408 \<le> \<bar>w\<bar> \<and> \<bar>w\<bar> \<le> 4)"
    proof (cases "r = 0")
      case True then show ?thesis by (simp add: r(2))
    next
      case False
      with mg(6) r(1) have b: "\<bar>r / m\<bar> \<le> 2" "1 / 2 ^ 407 \<le> \<bar>r / m\<bar>" by auto
      have "(1 / 2 ^ 407) * (1 / 2) \<le> \<bar>r / m\<bar> * g r"
        using b(2) gh [of r] by (intro mult_mono) simp_all
      moreover have "\<bar>r / m\<bar> * g r \<le> 2 * 2"
        using b(1) gh [of r] by (intro mult_mono) simp_all
      ultimately show ?thesis unfolding r(2) wabs by simp
    qed
  qed
  have nz2: "\<exists>w\<in>set ws. w \<noteq> 0"
  proof -
    obtain r where r: "r \<in> set t" "r \<noteq> 0" using nz by blast
    with mg(6) have "1 / 2 ^ 407 \<le> \<bar>r / m\<bar>" by auto
    then have "0 < \<bar>r / m\<bar>" by (rule less_le_trans [rotated]) simp
    moreover have "0 < g r" using gh [of r] by linarith
    ultimately have "r / m * g r \<noteq> 0" by auto
    then show ?thesis using r(1) by (auto simp: ws_def)
  qed
  have "real (length ws) \<le> 4096" using len lws by simp
  then have "real (length ws) * (4 * 4) \<le> 4096 * (4 * 4)"
    by (intro mult_right_mono) simp_all
  then have Bd: "real (length ws) * (4 * 4) \<le> (2::real) ^ 16" by simp
  have n: "length ws + 3 \<le> 2 ^ 52" using len lws by simp
  obtain m' g' where mg': "normalizeVector64 (map Num ws) = map (\<lambda>w. Num (w / m' * g' w)) ws"
      "0 < m'" "close (length ws + 2) m' (sqrt (\<Sum>w\<leftarrow>ws. w * w))"
      "\<forall>w. 1 - u64 \<le> g' w \<and> g' w \<le> 1 + u64"
    using normalize64_close [where a = "1 / 2 ^ 408" and b = 4 and Bd = "2 ^ 16"
        and Mb = "2 ^ 8", OF ok2 nz2 _ _ Bd _ _ _ _ n]
    by (auto simp: lo64_def hi64_def)
  define ws' where "ws' = map (\<lambda>w. w / m' * g' w) ws"
  have e2: "normalizeVector64 (map Num ws) = map Num ws'" by (simp add: mg'(1) ws'_def o_def)
  define K1 where "K1 = 2 + ((length t + 2) + (length t + 2))"
  have s: "(\<Sum>w\<leftarrow>ws. w * w) = (\<Sum>r\<leftarrow>t. (r / m * g r) * (r / m * g r))"
    by (simp add: ws_def o_def)
  have c: "close K1 (\<Sum>w\<leftarrow>ws. w * w) 1"
    unfolding s K1_def using mg(5,2,3,4) by (rule normalized_sq_sum_close)
  have Y0: "0 \<le> (\<Sum>w\<leftarrow>ws. w * w)" using sum_sq_nonneg' [of "\<lambda>w. w" ws] by simp
  have "close K1 (sqrt (\<Sum>w\<leftarrow>ws. w * w)) (sqrt 1)" using c Y0 by (intro close_sqrt) simp_all
  then have cs: "close K1 (sqrt (\<Sum>w\<leftarrow>ws. w * w)) 1" by simp
  have cm: "close (length ws + 2 + K1) m' 1" using close_trans [OF mg'(3) cs] .
  define K where "K = 1 + (length ws + 2 + K1)"
  have K: "K \<le> 2 ^ 14" using len lws by (simp add: K_def K1_def)
  have rho: "\<bar>g' w / m' - 1\<bar> \<le> 1 / 2 ^ 38" for w
  proof -
    have g1: "close 1 (g' w) 1" using mg'(4) by (intro factor_close) simp_all
    have g0: "0 \<le> g' w" using mg'(4) factor_half [of "g' w"] by (metis less_eq_real_def order_trans zero_le_divide_1_iff zero_le_numeral)
    have "close K (g' w / m') (1 / 1)"
      unfolding K_def by (rule close_divide [OF g1 cm]) (use g0 mg'(2) in simp_all)
    then have "close K (g' w / m') 1" by simp
    moreover have "0 \<le> g' w / m'" using g0 mg'(2) by simp
    ultimately show ?thesis using close_tolerance [of K "g' w / m'" 1] K by simp
  qed
  have each: "\<bar>(w / m' * g' w) - w\<bar> \<le> \<bar>w\<bar> / 2 ^ 38" for w
  proof -
    have "(w / m' * g' w) - w = w * (g' w / m' - 1)" by (simp add: algebra_simps)
    then have "\<bar>(w / m' * g' w) - w\<bar> = \<bar>w\<bar> * \<bar>g' w / m' - 1\<bar>" by (simp only: abs_mult)
    also have "\<dots> \<le> \<bar>w\<bar> * (1 / 2 ^ 38)" using rho [of w] by (intro mult_left_mono) simp_all
    finally show ?thesis by simp
  qed
  have "list_all2 (\<lambda>w w'. \<bar>w' - w\<bar> \<le> \<bar>w\<bar> / 2 ^ 38) ws ws'"
    unfolding ws'_def list_all2_map2 using each by (simp add: list_all2_same)
  with e1 e2 show ?thesis by blast
qed

lemma sqrt_9_16: "sqrt ((3 / 4) * (3 / 4)) = 3 / 4"
  by (rule real_sqrt_unique) (simp_all add: power2_eq_square)

lemma vectorWithImportance64_tiny:
  "vectorWithImportance64 [Num (3 / 2 ^ 539)] x = [Num (3 / 4), sqrt64 x]"
proof -
  have "length [Num (3 / 2 ^ 539)] \<noteq> 4096" by simp
  then have "vectorWithImportance64 [Num (3 / 2 ^ 539)] x
               = normalizeVector64 [Num (3 / 2 ^ 539)] @ [sqrt64 x]"
    by (rule vectorWithImportance64_short)
  then show ?thesis unfolding normalizeVector64_tiny by simp
qed

section \<open>The contract of the normalizer\<close>




section \<open>The normalized prefix\<close>

text \<open>
  C3. The claim as stated, that the leading entries of the stored vector of every
  non-zero embedding have Euclidean norm 1, fails in two ways. At the cap, the embedding
  of 4096 entries whose only non-zero entry is the last one loses that entry, and the
  4095 leading entries of its stored vector are all zero. Below the range of the normal
  doubles, the square of the single entry \<open>3 \<cdot> 2^-539\<close> is rounded from
  \<open>9 \<cdot> 2^-1078\<close> to \<open>2^-1074\<close>, and the stored leading entry is 3/4.
\<close>

theorem unit_norm_prefix_counterexample:
  "length (replicate 4095 (Num 0) @ [Num 1]) = 4096
   \<and> Num 1 \<in> set (replicate 4095 (Num 0) @ [Num 1])
   \<and> take (4096 - 1) (vectorWithImportance64 (replicate 4095 (Num 0) @ [Num 1]) (Num 1))
       = replicate 4095 (Num 0)
   \<and> take 1 (vectorWithImportance64 [Num (3 / 2 ^ 539)] (Num 1)) = [Num (3 / 4)]
   \<and> sqrt ((3 / 4) * (3 / 4)) \<noteq> 1"
proof -
  have "vectorWithImportance64 (replicate 4095 (Num 0) @ [Num 1]) (Num 1)
          = replicate 4095 (Num 0) @ [sqrt64 (Num 1)]"
    by (simp add: vectorWithImportance64_eq truncateForEncoding_def normalizeVector64_zeros)
  moreover have "take 1 (vectorWithImportance64 [Num (3 / 2 ^ 539)] (Num 1)) = [Num (3 / 4)]"
    unfolding vectorWithImportance64_tiny by simp
  ultimately show ?thesis unfolding sqrt_9_16 by simp
qed

text \<open>
  C3, amended. Take an embedding of at most 4096 reals and its capped part: the embedding
  itself, or its first 4095 entries when it has 4096; let every entry of the capped part
  be zero or of magnitude between \<open>2^-200\<close> and \<open>2^200\<close>. For every importance,
  when the capped part has a non-zero entry the leading entries of the stored vector (as
  many as the capped part has) are finite and their Euclidean norm is within \<open>2^-38\<close>
  of 1; when the capped part is all zero, as for an all-zero embedding, these leading
  entries are all zero. The leading entries are the same for every importance.
\<close>

theorem unit_norm_prefix_f64:
  assumes "length rs \<le> 4096" "\<forall>r\<in>set (truncateForEncoding rs). safe_entry r"
  shows "((\<exists>r\<in>set (truncateForEncoding rs). r \<noteq> 0) \<longrightarrow>
            (\<exists>ws. take (length (truncateForEncoding rs)) (vectorWithImportance64 (map Num rs) x)
                    = map Num ws
                  \<and> \<bar>sqrt (\<Sum>w\<leftarrow>ws. w * w) - 1\<bar> \<le> 1 / 2 ^ 38))
         \<and> ((\<forall>r\<in>set (truncateForEncoding rs). r = 0) \<longrightarrow>
              take (length (truncateForEncoding rs)) (vectorWithImportance64 (map Num rs) x)
                = replicate (length (truncateForEncoding rs)) (Num 0))
         \<and> take (length (truncateForEncoding rs)) (vectorWithImportance64 (map Num rs) x)
           = take (length (truncateForEncoding rs)) (vectorWithImportance64 (map Num rs) x')"
proof -
  define t where "t = truncateForEncoding rs"
  have lt: "length t \<le> 4096" using assms(1) by (simp add: t_def truncateForEncoding_def)
  have p: "take (length t) (vectorWithImportance64 (map Num rs) x) = normalizeVector64 (map Num t)"
    for x
    by (simp add: vectorWithImportance64_eq truncateForEncoding_map t_def length_normalizeVector64)
  have A: "\<exists>ws. normalizeVector64 (map Num t) = map Num ws \<and> \<bar>sqrt (\<Sum>w\<leftarrow>ws. w * w) - 1\<bar> \<le> 1 / 2 ^ 38"
    if nz: "\<exists>r\<in>set t. r \<noteq> 0"
  proof -
    obtain m g where mg: "normalizeVector64 (map Num t) = map (\<lambda>r. Num (r / m * g r)) t"
        "0 < m" "close (length t + 2) m (sqrt (\<Sum>r\<leftarrow>t. r * r))" "0 < (\<Sum>r\<leftarrow>t. r * r)"
        "\<forall>r. 1 - u64 \<le> g r \<and> g r \<le> 1 + u64"
      using normalize64_safe [OF _ nz lt] assms(2) unfolding t_def by blast
    define ws where "ws = map (\<lambda>r. r / m * g r) t"
    have e: "normalizeVector64 (map Num t) = map Num ws" by (simp add: mg(1) ws_def o_def)
    have s: "(\<Sum>w\<leftarrow>ws. w * w) = (\<Sum>r\<leftarrow>t. (r / m * g r) * (r / m * g r))"
      by (simp add: ws_def o_def)
    have c: "close (2 + ((length t + 2) + (length t + 2))) (\<Sum>w\<leftarrow>ws. w * w) 1"
      unfolding s using mg(5,2,3,4) by (rule normalized_sq_sum_close)
    have K: "2 + ((length t + 2) + (length t + 2)) \<le> 2 ^ 14" using lt by simp
    have "0 \<le> (\<Sum>w\<leftarrow>ws. w * w)" using sum_sq_nonneg' [of "\<lambda>w. w" ws] by simp
    then have "\<bar>sqrt (\<Sum>w\<leftarrow>ws. w * w) - 1\<bar> \<le> 1 / 2 ^ 38"
      using close_to_one_sqrt [OF c K] by simp
    with e show ?thesis by blast
  qed
  have B: "normalizeVector64 (map Num t) = replicate (length t) (Num 0)" if "\<forall>r\<in>set t. r = 0"
  proof -
    from that have "map Num t = replicate (length t) (Num 0)"
      by (induction t) simp_all
    then show ?thesis using normalizeVector64_zeros [of "length t"] by simp
  qed
  show ?thesis unfolding t_def [symmetric] p using A B by blast
qed

theorem unit_norm_prefix_f64_witness:
  "(\<exists>ws. take 2 (vectorWithImportance64 [Num 3, Num 4] (Num 1)) = map Num ws
         \<and> \<bar>sqrt (\<Sum>w\<leftarrow>ws. w * w) - 1\<bar> \<le> 1 / 2 ^ 38)
   \<and> take 2 (vectorWithImportance64 [Num 0, Num 0] (Num 1)) = [Num 0, Num 0]"
proof -
  have t: "truncateForEncoding [3, 4 :: real] = [3, 4]"
    and z: "truncateForEncoding [0, 0 :: real] = [0, 0]"
    by (simp_all add: truncateForEncoding_def)
  have s: "safe_entry 3" "safe_entry 4" "safe_entry 0" by (simp_all add: safe_entry_def)
  have "\<exists>ws. take 2 (vectorWithImportance64 [Num 3, Num 4] (Num 1)) = map Num ws
         \<and> \<bar>sqrt (\<Sum>w\<leftarrow>ws. w * w) - 1\<bar> \<le> 1 / 2 ^ 38"
    using unit_norm_prefix_f64 [of "[3, 4]" "Num 1"] s by (simp add: t numeral_2_eq_2)
  moreover have "take 2 (vectorWithImportance64 [Num 0, Num 0] (Num 1)) = [Num 0, Num 0]"
    using unit_norm_prefix_f64 [of "[0, 0]" "Num 1"] s by (simp add: z numeral_2_eq_2)
  ultimately show ?thesis by blast
qed

section \<open>Re-weighting\<close>

text \<open>
  C4. The claim as stated, that re-weighting leaves the leading entries as encoding with
  the new importance gives them, fails below the range of the normal doubles: for the
  embedding with the single entry \<open>3 \<cdot> 2^-539\<close> the stored leading entry is 3/4,
  and re-weighting the stored vector normalizes it again, to 1.
\<close>

theorem modifyImportance_direction_counterexample:
  "butlast (vectorWithImportance64 [Num (3 / 2 ^ 539)] (Num 1)) = [Num (3 / 4)]
   \<and> butlast (modifyImportance64 (vectorWithImportance64 [Num (3 / 2 ^ 539)] (Num 0)) (Num 1))
       = [Num 1]
   \<and> \<bar>1 - 3 / 4\<bar> = (1 / 4 :: real)"
proof -
  have "modifyImportance64 [Num (3 / 4), sqrt64 (Num 0)] (Num 1)
          = vectorWithImportance64 [Num (3 / 4)] (Num 1)"
    by (simp add: modifyImportance64_eq)
  also have "\<dots> = normalizeVector64 [Num (3 / 4)] @ [sqrt64 (Num 1)]"
    by (rule vectorWithImportance64_short) simp
  finally have "modifyImportance64 [Num (3 / 4), sqrt64 (Num 0)] (Num 1) = [Num 1, sqrt64 (Num 1)]"
    unfolding normalizeVector64_3_4 by simp
  then show ?thesis unfolding vectorWithImportance64_tiny by simp
qed

text \<open>
  C4, amended. Take an embedding of at most 4096 reals whose capped part has only entries
  that are zero or of magnitude between \<open>2^-200\<close> and \<open>2^200\<close>. For all
  importances x1 and x2, re-weighting the vector stored with x1 to x2 gives a vector with
  the length and the last entry of the vector stored with x2, and each of its leading
  entries differs from the corresponding leading entry of the vector stored with x2 by at
  most \<open>2^-38\<close> times the magnitude of that entry.
\<close>

theorem modifyImportance_f64_direction:
  assumes "length rs \<le> 4096" "\<forall>r\<in>set (truncateForEncoding rs). safe_entry r"
  shows "length (modifyImportance64 (vectorWithImportance64 (map Num rs) x1) x2)
           = length (vectorWithImportance64 (map Num rs) x2)
         \<and> last (modifyImportance64 (vectorWithImportance64 (map Num rs) x1) x2)
           = last (vectorWithImportance64 (map Num rs) x2)
         \<and> (\<exists>ws ws'. butlast (vectorWithImportance64 (map Num rs) x2) = map Num ws
              \<and> butlast (modifyImportance64 (vectorWithImportance64 (map Num rs) x1) x2)
                  = map Num ws'
              \<and> list_all2 (\<lambda>w w'. \<bar>w' - w\<bar> \<le> \<bar>w\<bar> / 2 ^ 38) ws ws')"
proof -
  define t where "t = truncateForEncoding rs"
  have lt: "length t \<le> 4096" using assms(1) by (simp add: t_def truncateForEncoding_def)
  have v: "vectorWithImportance64 (map Num rs) x = normalizeVector64 (map Num t) @ [sqrt64 x]" for x
    by (simp add: vectorWithImportance64_eq truncateForEncoding_map t_def)
  have m: "modifyImportance64 (vectorWithImportance64 (map Num rs) x1) x2
             = normalizeVector64 (normalizeVector64 (map Num t)) @ [sqrt64 x2]"
    by (simp add: modifyImportance64_stored truncateForEncoding_map t_def)
  have "\<exists>ws ws'. normalizeVector64 (map Num t) = map Num ws
           \<and> normalizeVector64 (normalizeVector64 (map Num t)) = map Num ws'
           \<and> list_all2 (\<lambda>w w'. \<bar>w' - w\<bar> \<le> \<bar>w\<bar> / 2 ^ 38) ws ws'"
  proof (cases "\<exists>r\<in>set t. r \<noteq> 0")
    case True
    then obtain ws ws' where "normalizeVector64 (map Num t) = map Num ws"
        "normalizeVector64 (map Num ws) = map Num ws'"
        "list_all2 (\<lambda>w w'. \<bar>w' - w\<bar> \<le> \<bar>w\<bar> / 2 ^ 38) ws ws'"
      using renormalize64_close [OF _ _ lt] assms(2) unfolding t_def by blast
    then show ?thesis by (intro exI [of _ ws] exI [of _ ws']) simp
  next
    case False
    then have z: "map Num t = replicate (length t) (Num 0)"
      by (induction t) simp_all
    have n1: "normalizeVector64 (map Num t) = map Num (replicate (length t) 0)"
      unfolding z using normalizeVector64_zeros [of "length t"] by simp
    have n2: "normalizeVector64 (normalizeVector64 (map Num t)) = map Num (replicate (length t) 0)"
      unfolding z using normalizeVector64_zeros [of "length t"] by simp
    have "list_all2 (\<lambda>w w'. \<bar>w' - w\<bar> \<le> \<bar>w\<bar> / 2 ^ 38) (replicate (length t) (0::real))
            (replicate (length t) 0)"
      by (simp add: list_all2_same)
    with n1 n2 show ?thesis by blast
  qed
  then obtain ws ws' where w: "normalizeVector64 (map Num t) = map Num ws"
      "normalizeVector64 (normalizeVector64 (map Num t)) = map Num ws'"
      "list_all2 (\<lambda>w w'. \<bar>w' - w\<bar> \<le> \<bar>w\<bar> / 2 ^ 38) ws ws'"
    by blast
  have l1: "length (modifyImportance64 (vectorWithImportance64 (map Num rs) x1) x2) = Suc (length t)"
    unfolding m by (simp add: length_normalizeVector64)
  have l2: "length (vectorWithImportance64 (map Num rs) x2) = Suc (length t)"
    unfolding v by (simp add: length_normalizeVector64)
  have a1: "last (modifyImportance64 (vectorWithImportance64 (map Num rs) x1) x2) = sqrt64 x2"
    unfolding m by simp
  have a2: "last (vectorWithImportance64 (map Num rs) x2) = sqrt64 x2"
    unfolding v by simp
  have b1: "butlast (vectorWithImportance64 (map Num rs) x2) = map Num ws"
    unfolding v by (simp add: w(1))
  have b2: "butlast (modifyImportance64 (vectorWithImportance64 (map Num rs) x1) x2) = map Num ws'"
    unfolding m by (simp add: w(2))
  show ?thesis
    unfolding l1 l2 a1 a2 using b1 b2 w(3) by blast
qed

theorem modifyImportance_f64_direction_witness:
  "\<exists>ws ws'. butlast (vectorWithImportance64 [Num 3, Num 4] (Num 1)) = map Num ws
     \<and> butlast (modifyImportance64 (vectorWithImportance64 [Num 3, Num 4] (Num 0)) (Num 1))
         = map Num ws'
     \<and> list_all2 (\<lambda>w w'. \<bar>w' - w\<bar> \<le> \<bar>w\<bar> / 2 ^ 38) ws ws'"
proof -
  have t: "truncateForEncoding [3, 4 :: real] = [3, 4]"
    by (simp add: truncateForEncoding_def)
  have s: "safe_entry 3" "safe_entry 4" by (simp_all add: safe_entry_def)
  show ?thesis
    using modifyImportance_f64_direction [of "[3, 4]" "Num 0" "Num 1"] s by (simp add: t)
qed

end
